theory Spec2Isabelle
  imports Main "HOL-Library.Sublist"
begin

section \<open>Data model\<close>

text \<open>
  The declarations of \<^verbatim>\<open>GitHub.User\<close> and \<^verbatim>\<open>GitHub.Repo\<close>
  (\<^verbatim>\<open>custom_typings/main.d.ts\<close>, module \<^verbatim>\<open>github-cache\<close>).
\<close>

record User =
  login :: string

record Repo =
  owner :: User
  name :: string
  clone_url :: string

text \<open>
  Modelled from the spec: the declaration of \<^verbatim>\<open>ElementRepo\<close> lives in
  \<^verbatim>\<open>./element-repo\<close>, which is not among the sources. The fields below are the ones
  \<^verbatim>\<open>tedium.ts\<close> reads or writes. The handle \<^verbatim>\<open>repo\<close> of the local working copy is
  identified with the directory \<^verbatim>\<open>dir\<close> it was opened at, and the shared
  \<^verbatim>\<open>analyzer\<close> is left out: no function modelled here reads it. The five flags are
  optional in the source (the literal at line 401 sets none of them); an absent flag is
  falsy and is \<open>False\<close> here.
\<close>

record ElementRepo =
  dir :: string
  ghRepo :: Repo
  dirty :: bool
  needsReview :: bool
  pushDenied :: bool
  pushSucceeded :: bool
  pushFailed :: bool

text \<open>
  A thrown value; the string is what \<^verbatim>\<open>err.stack || err\<close> renders for it. For an
  error built with \<^verbatim>\<open>new Error(message)\<close> that is the header \<^verbatim>\<open>Error: \<close>, the
  message, and then the stack frames captured where it was built.
\<close>

datatype error = Error string

fun stack :: "error \<Rightarrow> string" where
  "stack (Error m) = m"

text \<open>
  The calls the program makes to its collaborators (nodegit and the GitHub client). Each
  takes the directory of the working copy or the GitHub coordinates it is made with.
\<close>

datatype call =
    GetHeadCommit string
  | BranchCreate string string nat
  | CheckoutBranch string nat
  | GetRemote string string
  | RemotePush string "string list"
  | PullRequestsCreate string string string string string
  | IssuesEdit nat string string string "string list"

text \<open>
  What has happened so far: each collaborator call with what it answered (\<open>Inl\<close> when it
  raised, \<open>Inr\<close> with the number it returned otherwise), and each wait on the rate
  limiter with its delay.
\<close>

datatype event = Called call "error + nat" | Waited nat

text \<open>
  The module's mutable globals \<^verbatim>\<open>elementsPushed\<close> and \<^verbatim>\<open>pushesDenied\<close>
  (lines 194-195), together with the log of effects. JavaScript numbers that only ever
  hold small integers are \<open>int\<close>.
\<close>

record state =
  elementsPushed :: int
  pushesDenied :: int
  events :: "event list"

record opts =
  max_changes :: int

text \<open>
  Modelled from the spec: \<^verbatim>\<open>cleanup\<close> is imported from \<^verbatim>\<open>./cleanup\<close>, which is not
  among the sources. By the spec the pipeline "alone decides \<^verbatim>\<open>dirty\<close> and
  \<^verbatim>\<open>needsReview\<close>", so here it answers, for an element, with the two flags it leaves
  on the element and with the error it raised, if any. The other field is not modelled
  from anything: \<open>respond\<close> stands for nodegit and the GitHub client, and answers a call
  given everything that happened before it; every theorem holds for every \<open>respond\<close>.
  Nor is the last: \<open>stack_frames\<close> is the text of the stack frames that the platform
  records in the \<^verbatim>\<open>stack\<close> of an \<^verbatim>\<open>Error\<close> built after the given events (the lines
  that follow the header; empty where the platform records none).
\<close>

record env =
  respond :: "event list \<Rightarrow> call \<Rightarrow> error + nat"
  cleanup :: "ElementRepo \<Rightarrow> bool \<times> bool \<times> error option"
  stack_frames :: "event list \<Rightarrow> string"

definition init_state :: state where
  "init_state = \<lparr>elementsPushed = 0, pushesDenied = 0, events = []\<rparr>"

section \<open>The push budget\<close>

text \<open>\<^verbatim>\<open>pushIsAllowed\<close>, lines 203-210.\<close>

definition pushIsAllowed :: "opts \<Rightarrow> state \<Rightarrow> bool \<times> state" where
  "pushIsAllowed opts s =
     (if elementsPushed s < max_changes opts
      then (True, s\<lparr>elementsPushed := elementsPushed s + 1\<rparr>)
      else (False, s\<lparr>pushesDenied := pushesDenied s + 1\<rparr>))"

text \<open>\<open>n\<close> calls of \<^verbatim>\<open>pushIsAllowed\<close> one after the other and what each returned.\<close>

fun pushIsAllowed_calls :: "opts \<Rightarrow> nat \<Rightarrow> state \<Rightarrow> bool list \<times> state" where
  "pushIsAllowed_calls opts 0 s = ([], s)"
| "pushIsAllowed_calls opts (Suc n) s =
     (case pushIsAllowed opts s of (b, s1) \<Rightarrow>
        (case pushIsAllowed_calls opts n s1 of (bs, s2) \<Rightarrow> (b # bs, s2)))"

section \<open>Publishing\<close>

text \<open>
  Making a collaborator call: the environment answers from the log so far, and the call
  and its answer are appended to the log.
\<close>

definition do_call :: "env \<Rightarrow> call \<Rightarrow> state \<Rightarrow> (error + nat) \<times> state" where
  "do_call env c s =
     (let r = respond env (events s) c
      in (r, s\<lparr>events := events s @ [Called c r]\<rparr>))"

text \<open>
  An awaited \<^verbatim>\<open>rateLimit(delay)\<close> inside the publish pipeline: it cannot raise and
  touches no counter, so only the wait is logged. Its timing is modelled on its own
  further down.
\<close>

definition await_rateLimit :: "nat \<Rightarrow> state \<Rightarrow> state" where
  "await_rateLimit delay s = s\<lparr>events := events s @ [Waited delay]\<rparr>"

text \<open>\<^verbatim>\<open>pushBranch\<close>, lines 252-266.\<close>

definition pushBranch ::
    "env \<Rightarrow> ElementRepo \<Rightarrow> string \<Rightarrow> string \<Rightarrow> state \<Rightarrow> (error + nat) \<times> state" where
  "pushBranch env element localBranchName remoteBranchName s =
     (case do_call env (GetRemote (dir element) ''origin'') s of
        (Inl e, s1) \<Rightarrow> (Inl e, s1)
      | (Inr remote, s1) \<Rightarrow>
          do_call env
            (RemotePush (dir element)
               [''refs/heads/'' @ localBranchName @ '':refs/heads/'' @ remoteBranchName])
            s1)"

text \<open>\<^verbatim>\<open>createPullRequest\<close>, lines 272-286.\<close>

definition createPullRequest ::
    "env \<Rightarrow> ElementRepo \<Rightarrow> string \<Rightarrow> string \<Rightarrow> string \<Rightarrow> state \<Rightarrow> (error + nat) \<times> state" where
  "createPullRequest env element head base assignee s =
     (let user = login (owner (ghRepo element));
          repo = name (ghRepo element);
          s1 = await_rateLimit 5000 s
      in case do_call env (PullRequestsCreate ''Automatic cleanup!'' user repo head base) s1 of
           (Inl e, s2) \<Rightarrow> (Inl e, s2)
         | (Inr number, s2) \<Rightarrow>
             do_call env (IssuesEdit number user repo assignee [''autogenerated'']) s2)"

text \<open>
  \<^verbatim>\<open>pushChanges\<close>, lines 221-244. The result is what the returned promise settles
  to (\<open>Inl\<close> when it rejects), the element as the call leaves it, and the new state.
\<close>

definition pushChanges ::
    "env \<Rightarrow> opts \<Rightarrow> ElementRepo \<Rightarrow> string \<Rightarrow> string \<Rightarrow> state
      \<Rightarrow> (error + unit) \<times> ElementRepo \<times> state" where
  "pushChanges env opts element localBranchName assignee s =
     (if \<not> dirty element then (Inr (), element, s)
      else case pushIsAllowed opts s of
        (False, s1) \<Rightarrow> (Inr (), element\<lparr>pushDenied := True\<rparr>, s1)
      | (True, s1) \<Rightarrow>
          (let remoteBranchName =
                 (if needsReview element then localBranchName else ''master'')
           in case pushBranch env element localBranchName remoteBranchName s1 of
                (Inl e, s2) \<Rightarrow> (Inl e, element\<lparr>pushFailed := True\<rparr>, s2)
              | (Inr pushed, s2) \<Rightarrow>
                  if needsReview element
                  then (case createPullRequest env element localBranchName ''master'' assignee s2 of
                          (Inl e, s3) \<Rightarrow> (Inl e, element\<lparr>pushFailed := True\<rparr>, s3)
                        | (Inr edited, s3) \<Rightarrow> (Inr (), element\<lparr>pushSucceeded := True\<rparr>, s3))
                  else (Inr (), element\<lparr>pushSucceeded := True\<rparr>, s2)))"

text \<open>The calls in a stretch of the log, without their answers and without the waits.\<close>

fun calls_of :: "event list \<Rightarrow> call list" where
  "calls_of [] = []"
| "calls_of (Called c r # evs) = c # calls_of evs"
| "calls_of (Waited d # evs) = calls_of evs"

text \<open>The error of the first call in a stretch of the log that raised, if one did.\<close>

fun first_raised :: "event list \<Rightarrow> error option" where
  "first_raised [] = None"
| "first_raised (Called c (Inl err) # evs) = Some err"
| "first_raised (Called c (Inr n) # evs) = first_raised evs"
| "first_raised (Waited d # evs) = first_raised evs"

text \<open>How many of the three outcome flags an element carries.\<close>

definition outcomes_set :: "ElementRepo \<Rightarrow> nat" where
  "outcomes_set element =
     length (filter id [pushDenied element, pushSucceeded element, pushFailed element])"

fun is_PullRequestsCreate :: "call \<Rightarrow> bool" where
  "is_PullRequestsCreate (PullRequestsCreate title user repo head base) = True"
| "is_PullRequestsCreate c = False"

fun is_RemotePush :: "call \<Rightarrow> bool" where
  "is_RemotePush (RemotePush d refspecs) = True"
| "is_RemotePush c = False"

section \<open>The batch\<close>

text \<open>\<^verbatim>\<open>checkoutNewBranch\<close>, lines 188-192; the commit and the branch are the numbers
  the collaborator answered with.\<close>

definition checkoutNewBranch :: "env \<Rightarrow> string \<Rightarrow> string \<Rightarrow> state \<Rightarrow> (error + nat) \<times> state" where
  "checkoutNewBranch env repo branchName s =
     (case do_call env (GetHeadCommit repo) s of
        (Inl e, s1) \<Rightarrow> (Inl e, s1)
      | (Inr commit, s1) \<Rightarrow>
          (case do_call env (BranchCreate repo branchName commit) s1 of
             (Inl e, s2) \<Rightarrow> (Inl e, s2)
           | (Inr branch, s2) \<Rightarrow> do_call env (CheckoutBranch repo branch) s2))"

text \<open>The set \<^verbatim>\<open>excludes\<close>, lines 421-429, and \<^verbatim>\<open>branchName\<close>, line 431.\<close>

definition excludes :: "string set" where
  "excludes = {''repos/style-guide'', ''repos/test-all'', ''repos/ContributionGuide'',
               ''repos/polymer'', ''repos/paper-listbox''}"

definition branchName :: string where
  "branchName = ''auto-cleanup''"

text \<open>
  The error built in the \<^verbatim>\<open>catch\<close> of lines 444-446,
  \<^verbatim>\<open>new Error(`Error updating ${element.dir}:\n${err.stack || err}`)\<close>: its message is
  the template literal, and what is later printed for it is the header \<^verbatim>\<open>Error: \<close>,
  that message, and the frames recorded when it was built.
\<close>

definition error_updating :: "string \<Rightarrow> ElementRepo \<Rightarrow> error \<Rightarrow> error" where
  "error_updating frames element err =
     Error (''Error: ''
            @ (''Error updating '' @ dir element @ '':'' @ [CHR 0x0A] @ stack err)
            @ frames)"

text \<open>
  The promise chain of lines 439-446 for one element: checkout, \<^verbatim>\<open>rateLimit(0)\<close>,
  \<^verbatim>\<open>cleanup\<close>, \<^verbatim>\<open>pushChanges\<close>, and the \<^verbatim>\<open>catch\<close> that wraps whatever any of
  them raised.
\<close>

definition update_element ::
    "env \<Rightarrow> opts \<Rightarrow> string \<Rightarrow> ElementRepo \<Rightarrow> state \<Rightarrow> (error + unit) \<times> ElementRepo \<times> state" where
  "update_element env opts user_login element s =
     (case checkoutNewBranch env (dir element) branchName s of
        (Inl err, s1) \<Rightarrow>
          (Inl (error_updating (stack_frames env (events s1)) element err), element, s1)
      | (Inr checked_out, s1) \<Rightarrow>
          (let s2 = await_rateLimit 0 s1
           in case cleanup env element of
                (d, n, raised) \<Rightarrow>
                  (let element1 = element\<lparr>dirty := d, needsReview := n\<rparr>
                   in case raised of
                        Some err \<Rightarrow>
                          (Inl (error_updating (stack_frames env (events s2)) element err),
                           element1, s2)
                      | None \<Rightarrow>
                          (case pushChanges env opts element1 branchName user_login s2 of
                             (Inl err, element2, s3) \<Rightarrow>
                               (Inl (error_updating (stack_frames env (events s3)) element err),
                                element2, s3)
                           | (Inr done, element2, s3) \<Rightarrow> (Inr (), element2, s3)))))"

text \<open>
  The loop of lines 434-448 over the elements in their sorted order. An element that
  raises ends the loop: the elements after it are returned as they were.
\<close>

fun update_elements ::
    "env \<Rightarrow> opts \<Rightarrow> string \<Rightarrow> ElementRepo list \<Rightarrow> state
      \<Rightarrow> (error + unit) \<times> ElementRepo list \<times> state" where
  "update_elements env opts user_login [] s = (Inr (), [], s)"
| "update_elements env opts user_login (element # rest) s =
     (if dir element \<in> excludes
      then (case update_elements env opts user_login rest s of
              (r, rest', s') \<Rightarrow> (r, element # rest', s'))
      else (case update_element env opts user_login element s of
              (Inl err, element', s1) \<Rightarrow> (Inl err, element' # rest, s1)
            | (Inr done, element', s1) \<Rightarrow>
                (case update_elements env opts user_login rest s1 of
                   (r, rest', s') \<Rightarrow> (r, element' # rest', s'))))"

text \<open>\<^verbatim>\<open>reportOnChangesMade\<close>, lines 356-378: the lines it prints.\<close>

definition report_group :: "string \<Rightarrow> ElementRepo list \<Rightarrow> string list" where
  "report_group message elements =
     (if length elements = 0 then []
      else (CHR 0x0A # message) # map (\<lambda>element. ''    '' @ dir element) elements)"

definition reportOnChangesMade :: "ElementRepo list \<Rightarrow> string list" where
  "reportOnChangesMade elements =
     (let pushedElements = filter pushSucceeded elements;
          failedElements = filter pushFailed elements;
          deniedElements = filter pushDenied elements
      in report_group ''Elements that would have been pushed:'' deniedElements
         @ report_group ''Elements pushed successfully:'' pushedElements
         @ report_group ''Elements that I tried to push that FAILED:'' failedElements)"

text \<open>A counter as a template literal prints it.\<close>

function decimal :: "nat \<Rightarrow> string" where
  "decimal n =
     (if n < 10 then [''0123456789'' ! n]
      else decimal (n div 10) @ [''0123456789'' ! (n mod 10)])"
  by pat_completeness auto
termination
  by (relation "measure id") auto

declare decimal.simps [simp del]

definition number_string :: "int \<Rightarrow> string" where
  "number_string i = (if i < 0 then ''-'' @ decimal (nat (- i)) else decimal (nat i))"

text \<open>The summary line of lines 451-461.\<close>

definition summary :: "opts \<Rightarrow> state \<Rightarrow> string" where
  "summary opts s =
     (if elementsPushed s = 0 \<and> pushesDenied s = 0 then ''No changes needed!''
      else if pushesDenied s = 0
      then ''Successfully pushed to '' @ number_string (elementsPushed s) @ '' repos.''
      else if max_changes opts = 0
      then number_string (pushesDenied s) @ '' changes ready to push. ''
           @ ''Call with --max_changes=N to push them up!''
      else ''Successfully pushed to '' @ number_string (elementsPushed s) @ '' repos. ''
           @ number_string (pushesDenied s) @ '' remain.'')"

text \<open>
  \<^verbatim>\<open>_main\<close> from line 419 on. Its first part (lines 381-416: wiping the working
  directory, discovery, cloning, analysis and the sort by directory) works on
  collaborators only; what it leaves in \<^verbatim>\<open>elements\<close> and the login of the
  authenticated user are the parameters here. The result carries the lines printed.
\<close>

definition u_main ::
    "env \<Rightarrow> opts \<Rightarrow> string \<Rightarrow> ElementRepo list \<Rightarrow> state
      \<Rightarrow> (error + unit) \<times> ElementRepo list \<times> state \<times> string list" where
  "u_main env opts user_login elements s =
     (case update_elements env opts user_login elements s of
        (Inl err, elements', s') \<Rightarrow> (Inl err, elements', s', [])
      | (Inr done, elements', s') \<Rightarrow>
          (Inr (), elements', s', reportOnChangesMade elements' @ [summary opts s']))"

text \<open>\<^verbatim>\<open>main\<close>, lines 464-484: what the process printed and how it exited.\<close>

record run =
  final_elements :: "ElementRepo list"
  final_state :: state
  stdout :: "string list"
  stderr :: "string list"
  exit_code :: nat

definition main :: "env \<Rightarrow> opts \<Rightarrow> string \<Rightarrow> ElementRepo list \<Rightarrow> state \<Rightarrow> run" where
  "main env opts user_login elements s =
     (case u_main env opts user_login elements s of
        (Inr done, elements', s', out) \<Rightarrow>
          \<lparr>final_elements = elements', final_state = s', stdout = out, stderr = [],
           exit_code = 0\<rparr>
      | (Inl err, elements', s', out) \<Rightarrow>
          \<lparr>final_elements = elements', final_state = s',
           stdout = out @ reportOnChangesMade elements',
           stderr = [[CHR 0x0A, CHR 0x0A], stack err], exit_code = 1\<rparr>)"

section \<open>Discovery\<close>

text \<open>
  The two listing calls of the GitHub client that \<^verbatim>\<open>getRepos\<close> uses:
  \<^verbatim>\<open>github.repos.get\<close> for the one fixed repository, and
  \<^verbatim>\<open>github.repos.getFromOrg\<close> as a function of the page number (the organisation
  and the page size are fixed).
\<close>

record listing =
  repos_get :: "error + Repo"
  getFromOrg :: "nat \<Rightarrow> error + Repo list"

definition per_page :: nat where
  "per_page = 100"

text \<open>
  The \<^verbatim>\<open>while (true)\<close> of lines 114-122. It ends at the first page shorter than
  \<^verbatim>\<open>per_page\<close> or at the first request that raises, and runs forever when
  neither comes: then the value is \<open>None\<close>.
\<close>

partial_function (option) fetch_pages ::
    "(nat \<Rightarrow> error + Repo list) \<Rightarrow> Repo list \<Rightarrow> nat \<Rightarrow> (error + Repo list) option" where
  "fetch_pages from_org repos page =
     (case from_org page of
        Inl err \<Rightarrow> Some (Inl err)
      | Inr resultsPage \<Rightarrow>
          if length resultsPage < per_page then Some (Inr (repos @ resultsPage))
          else fetch_pages from_org (repos @ resultsPage) (page + 1))"

text \<open>The deduplicating loop of lines 127-135.\<close>

fun dedupe :: "Repo list \<Rightarrow> string set \<Rightarrow> Repo list \<Rightarrow> Repo list" where
  "dedupe [] repoIds dedupedRepos = dedupedRepos"
| "dedupe (repo # repos) repoIds dedupedRepos =
     (if name repo \<in> repoIds then dedupe repos repoIds dedupedRepos
      else dedupe repos (insert (name repo) repoIds) (dedupedRepos @ [repo]))"

text \<open>\<^verbatim>\<open>getRepos\<close>, lines 101-137.\<close>

definition getRepos :: "listing \<Rightarrow> (error + Repo list) option" where
  "getRepos gh =
     (case repos_get gh of
        Inl err \<Rightarrow> Some (Inl err)
      | Inr repo \<Rightarrow>
          (case fetch_pages (getFromOrg gh) [repo] 0 of
             None \<Rightarrow> None
           | Some (Inl err) \<Rightarrow> Some (Inl err)
           | Some (Inr repos) \<Rightarrow> Some (Inr (dedupe repos {} []))))"

section \<open>The rate limiter\<close>

text \<open>
  \<^verbatim>\<open>rateLimit\<close>, lines 170-181, on a clock that counts milliseconds. A promise is
  represented by the instant at which it resolves; \<^verbatim>\<open>previousPromise\<close> is the state
  the closure keeps, and it starts resolved (instant 0). What the platform does is put
  into two functions of their own: a reaction added with \<^verbatim>\<open>then\<close> runs once its
  promise has resolved and not before it was added (\<open>reaction_runs\<close>), and the timer
  set by \<^verbatim>\<open>setTimeout(resolve, delay)\<close> fires \<open>delay\<close> milliseconds after it was set,
  or later by \<open>late\<close> milliseconds, never earlier (\<open>setTimeout_fires\<close>). A call is
  given by the instant \<open>at\<close> which it is made, its \<open>delay\<close> and that lateness.
\<close>

record timer_call =
  at :: nat
  delay :: nat
  late :: nat

definition reaction_runs :: "nat \<Rightarrow> nat \<Rightarrow> nat" where
  "reaction_runs promise now = max promise now"

definition setTimeout_fires :: "nat \<Rightarrow> nat \<Rightarrow> nat \<Rightarrow> nat" where
  "setTimeout_fires set_at delay_ms late_ms = set_at + delay_ms + late_ms"

text \<open>One call: the promise returned, and the new \<^verbatim>\<open>previousPromise\<close>.\<close>

definition rateLimit :: "timer_call \<Rightarrow> nat \<Rightarrow> nat \<times> nat" where
  "rateLimit c previousPromise =
     (let current = setTimeout_fires (reaction_runs previousPromise (at c)) (delay c) (late c)
      in (current, current))"

text \<open>A sequence of calls: the promises returned, in call order.\<close>

fun rateLimit_calls :: "timer_call list \<Rightarrow> nat \<Rightarrow> nat list" where
  "rateLimit_calls [] previousPromise = []"
| "rateLimit_calls (c # cs) previousPromise =
     (case rateLimit c previousPromise of
        (returned, previousPromise') \<Rightarrow> returned # rateLimit_calls cs previousPromise')"

text \<open>When the delay of the \<open>i\<close>-th call starts: when its reaction runs.\<close>

definition delay_starts :: "timer_call list \<Rightarrow> nat \<Rightarrow> nat \<Rightarrow> nat" where
  "delay_starts cs previousPromise i =
     reaction_runs (if i = 0 then previousPromise else rateLimit_calls cs previousPromise ! (i - 1))
       (at (cs ! i))"

section \<open>Concrete inputs\<close>

text \<open>Elements as the clone phase builds them, and collaborators: with every call
  answered, with the push rejected, and with the creation of the pull request failing.\<close>

definition paper_button :: ElementRepo where
  "paper_button =
     \<lparr>dir = ''repos/paper-button'',
      ghRepo = \<lparr>owner = \<lparr>login = ''PolymerElements''\<rparr>, name = ''paper-button'',
                clone_url = ''https://github.com/PolymerElements/paper-button.git''\<rparr>,
      dirty = False, needsReview = False,
      pushDenied = False, pushSucceeded = False, pushFailed = False\<rparr>"

definition iron_icon :: ElementRepo where
  "iron_icon =
     \<lparr>dir = ''repos/iron-icon'',
      ghRepo = \<lparr>owner = \<lparr>login = ''PolymerElements''\<rparr>, name = ''iron-icon'',
                clone_url = ''https://github.com/PolymerElements/iron-icon.git''\<rparr>,
      dirty = False, needsReview = False,
      pushDenied = False, pushSucceeded = False, pushFailed = False\<rparr>"

definition env_ok :: env where
  "env_ok = \<lparr>respond = (\<lambda>evs c. Inr 7), cleanup = (\<lambda>element. (True, False, None)),
              stack_frames = (\<lambda>evs. CHR 0x0A # ''    at tedium.js:360:17'')\<rparr>"

definition env_push_fails :: env where
  "env_push_fails =
     \<lparr>respond = (\<lambda>evs c. if is_RemotePush c then Inl (Error ''push rejected'') else Inr 7),
      cleanup = (\<lambda>element. (True, False, None)),
      stack_frames = (\<lambda>evs. CHR 0x0A # ''    at tedium.js:360:17'')\<rparr>"

definition env_pr_fails :: env where
  "env_pr_fails =
     \<lparr>respond = (\<lambda>evs c. if is_PullRequestsCreate c then Inl (Error ''Validation Failed'')
                            else Inr 7),
      cleanup = (\<lambda>element. (True, True, None)),
      stack_frames = (\<lambda>evs. CHR 0x0A # ''    at tedium.js:360:17'')\<rparr>"




text \<open>A listing whose one page repeats a repository under another clone URL.\<close>

definition polymer :: Repo where
  "polymer = \<lparr>owner = \<lparr>login = ''Polymer''\<rparr>, name = ''polymer'',
              clone_url = ''https://github.com/Polymer/polymer.git''\<rparr>"

definition repeating_listing :: listing where
  "repeating_listing =
     \<lparr>repos_get = Inr polymer,
      getFromOrg = (\<lambda>page. if page = 0
                           then Inr [ghRepo paper_button, ghRepo iron_icon,
                                     (ghRepo paper_button)\<lparr>clone_url :=
                                        ''git://github.com/PolymerElements/paper-button.git''\<rparr>]
                           else Inr [])\<rparr>"

section \<open>Properties of the push budget\<close>

lemma pushIsAllowed_calls_from:
  "elementsPushed s \<le> max_changes opts \<Longrightarrow>
   pushIsAllowed_calls opts n s = (bs, s') \<Longrightarrow>
   bs = replicate (min n (nat (max_changes opts - elementsPushed s))) True
        @ replicate (n - nat (max_changes opts - elementsPushed s)) False
   \<and> elementsPushed s' = elementsPushed s + int (min n (nat (max_changes opts - elementsPushed s)))
   \<and> pushesDenied s' = pushesDenied s + int (n - nat (max_changes opts - elementsPushed s))
   \<and> events s' = events s"
proof (induction n arbitrary: s bs s')
  case 0
  then show ?case by simp
next
  case (Suc n)
  obtain b s1 where step: "pushIsAllowed opts s = (b, s1)"
    by (cases "pushIsAllowed opts s")
  obtain bs1 s2 where rest: "pushIsAllowed_calls opts n s1 = (bs1, s2)"
    by (cases "pushIsAllowed_calls opts n s1")
  from Suc.prems(2) step rest have bs: "bs = b # bs1" and s': "s' = s2"
    by simp_all
  show ?case
  proof (cases "elementsPushed s < max_changes opts")
    case True
    with step have b: "b" and s1: "s1 = s\<lparr>elementsPushed := elementsPushed s + 1\<rparr>"
      by (simp_all add: pushIsAllowed_def)
    from True s1 have le: "elementsPushed s1 \<le> max_changes opts"
      by simp
    from True obtain k where k: "nat (max_changes opts - elementsPushed s) = Suc k"
      by (cases "nat (max_changes opts - elementsPushed s)") auto
    with s1 have k1: "nat (max_changes opts - elementsPushed s1) = k"
      by simp
    from Suc.IH [OF le rest] k k1 bs s' b s1 show ?thesis
      by simp
  next
    case False
    with Suc.prems(1) have eq: "elementsPushed s = max_changes opts"
      by simp
    from False step have b: "\<not> b" and s1: "s1 = s\<lparr>pushesDenied := pushesDenied s + 1\<rparr>"
      by (simp_all add: pushIsAllowed_def)
    from eq s1 have le: "elementsPushed s1 \<le> max_changes opts"
      by simp
    from Suc.IH [OF le rest] eq bs s' b s1 show ?thesis
      by simp
  qed
qed

lemma pushIsAllowed_one_counter:
  "pushIsAllowed opts s = (b, s1) \<Longrightarrow>
   (b \<and> elementsPushed s1 = elementsPushed s + 1 \<and> pushesDenied s1 = pushesDenied s)
   \<or> (\<not> b \<and> elementsPushed s1 = elementsPushed s \<and> pushesDenied s1 = pushesDenied s + 1)"
  by (auto simp: pushIsAllowed_def split: if_splits)

text \<open>
  C1. For a non-negative maximum \<open>m\<close>, any number \<open>n\<close> of calls of \<^verbatim>\<open>pushIsAllowed\<close>
  from the start of a run returns true for exactly the first \<open>m\<close> calls (all \<open>n\<close> when
  \<open>n \<le> m\<close>) and false for every later call; each single call, from any state, adds one
  to exactly one of the two counters and leaves the other alone; and after the \<open>n\<close>
  calls the two counters add up to \<open>n\<close>.
\<close>

theorem C1_pushIsAllowed_budget:
  assumes "0 \<le> max_changes opts"
    and "pushIsAllowed_calls opts n init_state = (bs, s')"
  shows "bs = replicate (min n (nat (max_changes opts))) True
              @ replicate (n - nat (max_changes opts)) False
    \<and> elementsPushed s' + pushesDenied s' = int n
    \<and> (\<forall>s b s1. pushIsAllowed opts s = (b, s1) \<longrightarrow>
          (b \<and> elementsPushed s1 = elementsPushed s + 1 \<and> pushesDenied s1 = pushesDenied s)
          \<or> (\<not> b \<and> elementsPushed s1 = elementsPushed s \<and> pushesDenied s1 = pushesDenied s + 1))"
proof -
  have le: "elementsPushed init_state \<le> max_changes opts"
    using assms(1) by (simp add: init_state_def)
  note all = pushIsAllowed_calls_from [OF le assms(2)]
  from all have "bs = replicate (min n (nat (max_changes opts))) True
              @ replicate (n - nat (max_changes opts)) False"
    by (simp add: init_state_def)
  moreover from all have "elementsPushed s' + pushesDenied s' = int n"
    by (simp add: init_state_def)
  moreover have "\<forall>s b s1. pushIsAllowed opts s = (b, s1) \<longrightarrow>
          (b \<and> elementsPushed s1 = elementsPushed s + 1 \<and> pushesDenied s1 = pushesDenied s)
          \<or> (\<not> b \<and> elementsPushed s1 = elementsPushed s \<and> pushesDenied s1 = pushesDenied s + 1)"
    using pushIsAllowed_one_counter by blast
  ultimately show ?thesis by blast
qed

theorem C1_pushIsAllowed_budget_witness:
  "pushIsAllowed_calls \<lparr>max_changes = 2\<rparr> 4 init_state
     = ([True, True, False, False], \<lparr>elementsPushed = 2, pushesDenied = 2, events = []\<rparr>)
   \<and> [True, True, False, False] = replicate (min 4 (nat 2)) True @ replicate (4 - nat 2) False
   \<and> elementsPushed \<lparr>elementsPushed = 2, pushesDenied = 2, events = []\<rparr>
       + pushesDenied \<lparr>elementsPushed = 2, pushesDenied = 2, events = []\<rparr> = int 4"
proof -
  have m: "0 \<le> max_changes \<lparr>max_changes = 2\<rparr>"
    by simp
  have run: "pushIsAllowed_calls \<lparr>max_changes = 2\<rparr> 4 init_state
     = ([True, True, False, False], \<lparr>elementsPushed = 2, pushesDenied = 2, events = []\<rparr>)"
    by (simp add: numeral_eq_Suc pushIsAllowed_def init_state_def)
  from C1_pushIsAllowed_budget [OF m run] run show ?thesis
    by simp
qed

section \<open>Properties of publishing\<close>

text \<open>\<^verbatim>\<open>pushChanges\<close> branch by branch.\<close>

lemma pushChanges_not_dirty:
  "\<not> dirty e \<Longrightarrow> pushChanges env opts e l a s = (Inr (), e, s)"
  by (simp add: pushChanges_def)

lemma pushChanges_denied:
  "dirty e \<Longrightarrow> pushIsAllowed opts s = (False, s1) \<Longrightarrow>
   pushChanges env opts e l a s = (Inr (), e\<lparr>pushDenied := True\<rparr>, s1)"
  by (simp add: pushChanges_def)

lemma pushChanges_push_raised:
  "dirty e \<Longrightarrow> pushIsAllowed opts s = (True, s1) \<Longrightarrow>
   pushBranch env e l (if needsReview e then l else ''master'') s1 = (Inl err, s2) \<Longrightarrow>
   pushChanges env opts e l a s = (Inl err, e\<lparr>pushFailed := True\<rparr>, s2)"
  by (simp add: pushChanges_def)

lemma pushChanges_direct:
  "dirty e \<Longrightarrow> pushIsAllowed opts s = (True, s1) \<Longrightarrow> \<not> needsReview e \<Longrightarrow>
   pushBranch env e l ''master'' s1 = (Inr n, s2) \<Longrightarrow>
   pushChanges env opts e l a s = (Inr (), e\<lparr>pushSucceeded := True\<rparr>, s2)"
  by (simp add: pushChanges_def)

lemma pushChanges_pr_raised:
  "dirty e \<Longrightarrow> pushIsAllowed opts s = (True, s1) \<Longrightarrow> needsReview e \<Longrightarrow>
   pushBranch env e l l s1 = (Inr n, s2) \<Longrightarrow>
   createPullRequest env e l ''master'' a s2 = (Inl err, s3) \<Longrightarrow>
   pushChanges env opts e l a s = (Inl err, e\<lparr>pushFailed := True\<rparr>, s3)"
  by (simp add: pushChanges_def)

lemma pushChanges_reviewed:
  "dirty e \<Longrightarrow> pushIsAllowed opts s = (True, s1) \<Longrightarrow> needsReview e \<Longrightarrow>
   pushBranch env e l l s1 = (Inr n, s2) \<Longrightarrow>
   createPullRequest env e l ''master'' a s2 = (Inr k, s3) \<Longrightarrow>
   pushChanges env opts e l a s = (Inr (), e\<lparr>pushSucceeded := True\<rparr>, s3)"
  by (simp add: pushChanges_def)

lemma first_raised_append:
  "first_raised (xs @ ys) = (case first_raised xs of Some e \<Rightarrow> Some e | None \<Rightarrow> first_raised ys)"
  by (induction xs rule: first_raised.induct) auto

lemma pushBranch_log:
  assumes "pushBranch env element l r s = (res, s')"
  shows "\<exists>new. s' = s\<lparr>events := events s @ new\<rparr> \<and> new \<noteq> []
           \<and> first_raised new = (case res of Inl err \<Rightarrow> Some err | Inr n \<Rightarrow> None)"
  using assms
  by (auto simp: pushBranch_def do_call_def Let_def split: sum.splits prod.splits)

lemma createPullRequest_log:
  assumes "createPullRequest env element h b a s = (res, s')"
  shows "\<exists>new. s' = s\<lparr>events := events s @ new\<rparr> \<and> new \<noteq> []
           \<and> first_raised new = (case res of Inl err \<Rightarrow> Some err | Inr n \<Rightarrow> None)"
  using assms
  by (auto simp: createPullRequest_def do_call_def await_rateLimit_def Let_def
           split: sum.splits prod.splits)

lemma pushChanges_allowed:
  assumes d: "dirty e"
    and al: "pushIsAllowed opts s = (True, s1)"
    and pc: "pushChanges env opts e l a s = (r, e', s')"
  shows "\<exists>new. s' = s1\<lparr>events := events s1 @ new\<rparr> \<and> new \<noteq> []
           \<and> (case first_raised new of
                 Some err \<Rightarrow> r = Inl err \<and> e' = e\<lparr>pushFailed := True\<rparr>
               | None \<Rightarrow> r = Inr () \<and> e' = e\<lparr>pushSucceeded := True\<rparr>)"
proof -
  define remote where "remote = (if needsReview e then l else ''master'')"
  obtain pr s2 where pb: "pushBranch env e l remote s1 = (pr, s2)"
    by (cases "pushBranch env e l remote s1")
  from pushBranch_log [OF pb] obtain new1 where
    s2: "s2 = s1\<lparr>events := events s1 @ new1\<rparr>" and n1: "new1 \<noteq> []"
    and r1: "first_raised new1 = (case pr of Inl err \<Rightarrow> Some err | Inr n \<Rightarrow> None)"
    by blast
  show ?thesis
  proof (cases pr)
    case (Inl err)
    from pushChanges_push_raised [OF d al pb [unfolded remote_def Inl]] pc
    have "r = Inl err" "e' = e\<lparr>pushFailed := True\<rparr>" "s' = s2"
      by simp_all
    with s2 n1 r1 Inl show ?thesis
      by (intro exI [of _ new1]) simp
  next
    case (Inr n)
    show ?thesis
    proof (cases "needsReview e")
      case False
      then have "remote = ''master''" by (simp add: remote_def)
      from pushChanges_direct [OF d al False pb [unfolded this Inr]] pc
      have "r = Inr ()" "e' = e\<lparr>pushSucceeded := True\<rparr>" "s' = s2"
        by simp_all
      with s2 n1 r1 Inr show ?thesis
        by (intro exI [of _ new1]) simp
    next
      case True
      then have rem: "remote = l" by (simp add: remote_def)
      obtain cr s3 where cp: "createPullRequest env e l ''master'' a s2 = (cr, s3)"
        by (cases "createPullRequest env e l ''master'' a s2")
      from createPullRequest_log [OF cp] obtain new2 where
        s3: "s3 = s2\<lparr>events := events s2 @ new2\<rparr>"
        and r2: "first_raised new2 = (case cr of Inl err \<Rightarrow> Some err | Inr n \<Rightarrow> None)"
        by blast
      from s3 s2 have s3': "s3 = s1\<lparr>events := events s1 @ (new1 @ new2)\<rparr>"
        by simp
      from n1 have n12: "new1 @ new2 \<noteq> []" by simp
      show ?thesis
      proof (cases cr)
        case (Inl err)
        from pushChanges_pr_raised [OF d al True pb [unfolded rem Inr] cp [unfolded Inl]] pc
        have "r = Inl err" "e' = e\<lparr>pushFailed := True\<rparr>" "s' = s3"
          by simp_all
        moreover from r1 r2 Inr Inl have "first_raised (new1 @ new2) = Some err"
          by (simp add: first_raised_append)
        ultimately show ?thesis using s3' n12
          by (intro exI [of _ "new1 @ new2"]) simp
      next
        case cr: (Inr k)
        from pushChanges_reviewed [OF d al True pb [unfolded rem Inr] cp [unfolded cr]] pc
        have "r = Inr ()" "e' = e\<lparr>pushSucceeded := True\<rparr>" "s' = s3"
          by simp_all
        moreover from r1 r2 Inr cr have "first_raised (new1 @ new2) = None"
          by (simp add: first_raised_append)
        ultimately show ?thesis using s3' n12
          by (intro exI [of _ "new1 @ new2"]) simp
      qed
    qed
  qed
qed


lemma pushIsAllowed_True:
  "pushIsAllowed opts s = (True, s1) \<Longrightarrow> s1 = s\<lparr>elementsPushed := elementsPushed s + 1\<rparr>"
  by (auto simp: pushIsAllowed_def split: if_splits)

lemma pushIsAllowed_False:
  "pushIsAllowed opts s = (False, s1) \<Longrightarrow> s1 = s\<lparr>pushesDenied := pushesDenied s + 1\<rparr>"
  by (auto simp: pushIsAllowed_def split: if_splits)

lemma pushChanges_effect:
  assumes pc: "pushChanges env opts e l a s = (r, e', s')"
  shows "(r = Inr () \<and> e' = e \<and> s' = s)
       \<or> (r = Inr () \<and> e' = e\<lparr>pushDenied := True\<rparr>
            \<and> s' = s\<lparr>pushesDenied := pushesDenied s + 1\<rparr>)
       \<or> (r = Inr () \<and> e' = e\<lparr>pushSucceeded := True\<rparr>
            \<and> elementsPushed s' = elementsPushed s + 1 \<and> pushesDenied s' = pushesDenied s)
       \<or> ((\<exists>err. r = Inl err) \<and> e' = e\<lparr>pushFailed := True\<rparr>
            \<and> elementsPushed s' = elementsPushed s + 1 \<and> pushesDenied s' = pushesDenied s)"
proof (cases "dirty e")
  case False
  from pushChanges_not_dirty [OF False] pc show ?thesis
    by simp
next
  case True
  obtain b s1 where al: "pushIsAllowed opts s = (b, s1)"
    by (cases "pushIsAllowed opts s")
  show ?thesis
  proof (cases b)
    case False
    with al have al': "pushIsAllowed opts s = (False, s1)"
      by simp
    from pushChanges_denied [OF True al'] pc pushIsAllowed_False [OF al']
    have "r = Inr ()" "e' = e\<lparr>pushDenied := True\<rparr>"
      "s' = s\<lparr>pushesDenied := pushesDenied s + 1\<rparr>"
      by simp_all
    then show ?thesis by blast
  next
    case b: True
    with al have al': "pushIsAllowed opts s = (True, s1)"
      by simp
    note s1 = pushIsAllowed_True [OF al']
    from pushChanges_allowed [OF True al' pc] obtain new where
      s': "s' = s1\<lparr>events := events s1 @ new\<rparr>"
      and out: "case first_raised new of
                 Some err \<Rightarrow> r = Inl err \<and> e' = e\<lparr>pushFailed := True\<rparr>
               | None \<Rightarrow> r = Inr () \<and> e' = e\<lparr>pushSucceeded := True\<rparr>"
      by blast
    from s' s1 have cnt: "elementsPushed s' = elementsPushed s + 1" "pushesDenied s' = pushesDenied s"
      by simp_all
    show ?thesis
    proof (cases "first_raised new")
      case None
      with out have "r = Inr ()" "e' = e\<lparr>pushSucceeded := True\<rparr>" by simp_all
      with cnt show ?thesis by blast
    next
      case (Some err)
      with out have "r = Inl err" "e' = e\<lparr>pushFailed := True\<rparr>" by simp_all
      with cnt show ?thesis by blast
    qed
  qed
qed

lemma do_call_counters:
  "do_call env c s = (r, s') \<Longrightarrow>
     elementsPushed s' = elementsPushed s \<and> pushesDenied s' = pushesDenied s"
  by (auto simp: do_call_def Let_def)

lemma checkoutNewBranch_counters:
  assumes "checkoutNewBranch env d b s = (r, s')"
  shows "elementsPushed s' = elementsPushed s \<and> pushesDenied s' = pushesDenied s"
  using assms
  by (auto simp: checkoutNewBranch_def do_call_def Let_def split: sum.splits prod.splits)

lemma update_element_effect:
  assumes ue: "update_element env opts user_login e s = (r, e', s')"
  shows "dir e' = dir e
       \<and> (r = Inr ()
          \<or> (\<exists>cause. r = Inl (error_updating (stack_frames env (events s')) e cause)))
       \<and> ((pushDenied e' = pushDenied e \<and> pushSucceeded e' = pushSucceeded e
             \<and> pushFailed e' = pushFailed e
             \<and> elementsPushed s' = elementsPushed s \<and> pushesDenied s' = pushesDenied s)
          \<or> (r = Inr () \<and> pushDenied e' \<and> pushSucceeded e' = pushSucceeded e
             \<and> pushFailed e' = pushFailed e
             \<and> elementsPushed s' = elementsPushed s \<and> pushesDenied s' = pushesDenied s + 1)
          \<or> (r = Inr () \<and> pushSucceeded e' \<and> pushDenied e' = pushDenied e
             \<and> pushFailed e' = pushFailed e
             \<and> elementsPushed s' = elementsPushed s + 1 \<and> pushesDenied s' = pushesDenied s)
          \<or> (r \<noteq> Inr () \<and> pushFailed e' \<and> pushDenied e' = pushDenied e
             \<and> pushSucceeded e' = pushSucceeded e
             \<and> elementsPushed s' = elementsPushed s + 1 \<and> pushesDenied s' = pushesDenied s))"
proof -
  obtain cr s1 where co: "checkoutNewBranch env (dir e) branchName s = (cr, s1)"
    by (cases "checkoutNewBranch env (dir e) branchName s")
  note c1 = checkoutNewBranch_counters [OF co]
  show ?thesis
  proof (cases cr)
    case (Inl err)
    with ue co have "r = Inl (error_updating (stack_frames env (events s1)) e err)"
      "e' = e" "s' = s1"
      by (auto simp: update_element_def Let_def)
    with c1 show ?thesis by auto
  next
    case (Inr n)
    define s2 where "s2 = await_rateLimit 0 s1"
    from c1 have c2: "elementsPushed s2 = elementsPushed s" "pushesDenied s2 = pushesDenied s"
      by (simp_all add: s2_def await_rateLimit_def)
    obtain d nr raised where cl: "cleanup env e = (d, nr, raised)"
      by (cases "cleanup env e")
    define e1 where "e1 = e\<lparr>dirty := d, needsReview := nr\<rparr>"
    have e1: "dir e1 = dir e" "pushDenied e1 = pushDenied e"
      "pushSucceeded e1 = pushSucceeded e" "pushFailed e1 = pushFailed e"
      by (simp_all add: e1_def)
    show ?thesis
    proof (cases raised)
      case (Some err)
      with ue co Inr cl have "r = Inl (error_updating (stack_frames env (events s2)) e err)"
        "e' = e1" "s' = s2"
        by (auto simp: update_element_def s2_def e1_def Let_def)
      with c2 e1 show ?thesis by auto
    next
      case None
      obtain pr e2 s3 where pc: "pushChanges env opts e1 branchName user_login s2 = (pr, e2, s3)"
        by (cases "pushChanges env opts e1 branchName user_login s2")
      from ue co Inr cl None pc
      have r: "r = (case pr of
                      Inl err \<Rightarrow> Inl (error_updating (stack_frames env (events s3)) e err)
                    | Inr u \<Rightarrow> Inr ())"
        and e': "e' = e2" and s': "s' = s3"
        by (auto simp: update_element_def s2_def e1_def Let_def split: sum.splits)
      from pushChanges_effect [OF pc] r e' s' c2 e1 show ?thesis
        by (elim disjE conjE exE) auto
    qed
  qed
qed

lemma outcomes_set_0:
  "outcomes_set e = 0 \<longleftrightarrow> \<not> pushDenied e \<and> \<not> pushSucceeded e \<and> \<not> pushFailed e"
  by (simp add: outcomes_set_def)

lemma outcomes_set_le_1:
  "outcomes_set e \<le> 1 \<longleftrightarrow>
     \<not> (pushDenied e \<and> pushSucceeded e) \<and> \<not> (pushDenied e \<and> pushFailed e)
     \<and> \<not> (pushSucceeded e \<and> pushFailed e)"
  by (auto simp: outcomes_set_def)

lemma outcomes_set_le_Suc_0:
  "outcomes_set e \<le> Suc 0 \<longleftrightarrow>
     \<not> (pushDenied e \<and> pushSucceeded e) \<and> \<not> (pushDenied e \<and> pushFailed e)
     \<and> \<not> (pushSucceeded e \<and> pushFailed e)"
  by (auto simp: outcomes_set_def)

lemma fresh_filter:
  assumes "\<forall>e\<in>set es. outcomes_set e = 0"
  shows "filter pushSucceeded es = []" "filter pushFailed es = []" "filter pushDenied es = []"
  using assms by (auto simp: outcomes_set_0 filter_empty_conv)

lemma update_elements_counts:
  assumes "\<forall>e\<in>set es. outcomes_set e = 0"
    and "update_elements env opts user_login es s = (r, es', s')"
  shows "map dir es' = map dir es
       \<and> (\<forall>e'\<in>set es'. outcomes_set e' \<le> 1)
       \<and> elementsPushed s' = elementsPushed s + int (length (filter pushSucceeded es'))
                                + int (length (filter pushFailed es'))
       \<and> pushesDenied s' = pushesDenied s + int (length (filter pushDenied es'))
       \<and> length (filter pushFailed es') \<le> 1
       \<and> (r = Inr () \<longrightarrow> filter pushFailed es' = [])"
  using assms
proof (induction es arbitrary: s r es' s')
  case Nil
  then show ?case by simp
next
  case (Cons e rest)
  from Cons.prems(1) have fresh_e: "\<not> pushDenied e" "\<not> pushSucceeded e" "\<not> pushFailed e"
    and fresh_rest: "\<forall>x\<in>set rest. outcomes_set x = 0"
    by (simp_all add: outcomes_set_0)
  show ?case
  proof (cases "dir e \<in> excludes")
    case True
    obtain r2 rest' s2 where rec: "update_elements env opts user_login rest s = (r2, rest', s2)"
      by (cases "update_elements env opts user_login rest s")
    with True Cons.prems(2) have eq: "r = r2" "es' = e # rest'" "s' = s2"
      by auto
    from Cons.IH [OF fresh_rest rec] eq fresh_e show ?thesis
      by (simp add: outcomes_set_le_Suc_0)
  next
    case False
    obtain r1 e1 s1 where ue: "update_element env opts user_login e s = (r1, e1, s1)"
      by (cases "update_element env opts user_login e s")
    note eff = update_element_effect [OF ue]
    show ?thesis
    proof (cases r1)
      case (Inl err)
      with False ue Cons.prems(2) have eq: "r = Inl err" "es' = e1 # rest" "s' = s1"
        by auto
      from fresh_rest have le: "\<forall>x\<in>set rest. outcomes_set x \<le> 1"
        by simp
      from eff Inl eq fresh_e fresh_filter [OF fresh_rest] le show ?thesis
        by (auto simp: outcomes_set_le_Suc_0)
    next
      case (Inr u)
      obtain r2 rest' s2 where rec: "update_elements env opts user_login rest s1 = (r2, rest', s2)"
        by (cases "update_elements env opts user_login rest s1")
      with Inr False ue Cons.prems(2) have eq: "r = r2" "es' = e1 # rest'" "s' = s2"
        by auto
      from Cons.IH [OF fresh_rest rec] eff Inr eq fresh_e show ?thesis
        by (auto simp: outcomes_set_le_Suc_0)
    qed
  qed
qed



text \<open>
  C3. For an element that is not dirty, \<^verbatim>\<open>pushChanges\<close> returns at once: the element
  is as it was (none of the three outcome flags is touched), and the state is as it was
  (no collaborator was called, no counter moved).
\<close>

theorem C3_not_dirty_unattempted:
  assumes "\<not> dirty element"
  shows "pushChanges env opts element localBranchName assignee s = (Inr (), element, s)"
  using assms by (simp add: pushChanges_def)

theorem C3_not_dirty_unattempted_witness:
  "\<not> dirty paper_button
   \<and> pushChanges env_ok \<lparr>max_changes = 1\<rparr> paper_button branchName ''bot'' init_state
       = (Inr (), paper_button, init_state)"
proof -
  have d: "\<not> dirty paper_button"
    by (simp add: paper_button_def)
  from C3_not_dirty_unattempted [OF d] d show ?thesis
    by simp
qed

text \<open>
  C2. For a dirty element that the budget denies, \<^verbatim>\<open>pushChanges\<close> sets
  \<^verbatim>\<open>pushDenied\<close>, counts the denial and returns; the log of effects is the one it
  started from. Both \<^verbatim>\<open>pushBranch\<close> and \<^verbatim>\<open>createPullRequest\<close> change the log
  whenever they are invoked, so neither was, and no collaborator was called.
\<close>

theorem C2_denied_no_remote:
  assumes "dirty element"
    and "fst (pushIsAllowed opts s) = False"
  shows "pushChanges env opts element localBranchName assignee s
           = (Inr (), element\<lparr>pushDenied := True\<rparr>, s\<lparr>pushesDenied := pushesDenied s + 1\<rparr>)
         \<and> events (snd (snd (pushChanges env opts element localBranchName assignee s))) = events s
         \<and> (\<forall>l r s0. events (snd (pushBranch env element l r s0)) \<noteq> events s0)
         \<and> (\<forall>h b a s0. events (snd (createPullRequest env element h b a s0)) \<noteq> events s0)"
proof -
  from assms have "pushChanges env opts element localBranchName assignee s
           = (Inr (), element\<lparr>pushDenied := True\<rparr>, s\<lparr>pushesDenied := pushesDenied s + 1\<rparr>)"
    by (simp add: pushChanges_def pushIsAllowed_def split: if_splits)
  moreover have "events (snd (pushBranch env element l r s0)) \<noteq> events s0" for l r s0
    using pushBranch_log [of env element l r s0] by (cases "pushBranch env element l r s0") auto
  moreover have "events (snd (createPullRequest env element h b a s0)) \<noteq> events s0" for h b a s0
    using createPullRequest_log [of env element h b a s0]
    by (cases "createPullRequest env element h b a s0") auto
  ultimately show ?thesis
    by simp
qed

theorem C2_denied_no_remote_witness:
  "dirty (paper_button\<lparr>dirty := True\<rparr>)
   \<and> fst (pushIsAllowed \<lparr>max_changes = 0\<rparr> init_state) = False
   \<and> pushChanges env_ok \<lparr>max_changes = 0\<rparr> (paper_button\<lparr>dirty := True\<rparr>) branchName ''bot''
         init_state
       = (Inr (), paper_button\<lparr>dirty := True, pushDenied := True\<rparr>,
          \<lparr>elementsPushed = 0, pushesDenied = 1, events = []\<rparr>)"
proof -
  have d: "dirty (paper_button\<lparr>dirty := True\<rparr>)"
    by simp
  have a: "fst (pushIsAllowed \<lparr>max_changes = 0\<rparr> init_state) = False"
    by (simp add: pushIsAllowed_def init_state_def)
  from C2_denied_no_remote [OF d a, of env_ok branchName "''bot''"] d a show ?thesis
    by (simp add: init_state_def)
qed

text \<open>What \<^verbatim>\<open>pushBranch\<close> and \<^verbatim>\<open>createPullRequest\<close> leave in the log.\<close>

lemma do_call_eq:
  "do_call env c s
     = (respond env (events s) c, s\<lparr>events := events s @ [Called c (respond env (events s) c)]\<rparr>)"
  by (simp add: do_call_def Let_def)

lemma pushBranch_events:
  assumes pb: "pushBranch env e l rb s = (res, s')"
  shows "(\<exists>err. res = Inl err
            \<and> s' = s\<lparr>events := events s @ [Called (GetRemote (dir e) ''origin'') (Inl err)]\<rparr>)
       \<or> (\<exists>x. s' = s\<lparr>events := events s @
                 [Called (GetRemote (dir e) ''origin'') (Inr x),
                  Called (RemotePush (dir e) [''refs/heads/'' @ l @ '':refs/heads/'' @ rb]) res]\<rparr>)"
proof (cases "respond env (events s) (GetRemote (dir e) ''origin'')")
  case (Inl err)
  with pb have "res = Inl err"
    "s' = s\<lparr>events := events s @ [Called (GetRemote (dir e) ''origin'') (Inl err)]\<rparr>"
    by (auto simp: pushBranch_def do_call_eq)
  then show ?thesis by blast
next
  case (Inr x)
  with pb have "s' = s\<lparr>events := events s @
                 [Called (GetRemote (dir e) ''origin'') (Inr x),
                  Called (RemotePush (dir e) [''refs/heads/'' @ l @ '':refs/heads/'' @ rb]) res]\<rparr>"
    by (auto simp: pushBranch_def do_call_eq)
  then show ?thesis by blast
qed

lemma createPullRequest_events:
  assumes cp: "createPullRequest env e h b a s = (res, s')"
  shows "(\<exists>err. res = Inl err
            \<and> s' = s\<lparr>events := events s @
                 [Waited 5000,
                  Called (PullRequestsCreate ''Automatic cleanup!'' (login (owner (ghRepo e)))
                            (name (ghRepo e)) h b) (Inl err)]\<rparr>)
       \<or> (\<exists>n. s' = s\<lparr>events := events s @
                 [Waited 5000,
                  Called (PullRequestsCreate ''Automatic cleanup!'' (login (owner (ghRepo e)))
                            (name (ghRepo e)) h b) (Inr n),
                  Called (IssuesEdit n (login (owner (ghRepo e))) (name (ghRepo e)) a
                            [''autogenerated'']) res]\<rparr>)"
proof (cases "respond env (events s @ [Waited 5000])
                (PullRequestsCreate ''Automatic cleanup!'' (login (owner (ghRepo e)))
                            (name (ghRepo e)) h b)")
  case (Inl err)
  with cp have "res = Inl err"
    "s' = s\<lparr>events := events s @
                 [Waited 5000,
                  Called (PullRequestsCreate ''Automatic cleanup!'' (login (owner (ghRepo e)))
                            (name (ghRepo e)) h b) (Inl err)]\<rparr>"
    by (auto simp: createPullRequest_def do_call_eq await_rateLimit_def Let_def)
  then show ?thesis by blast
next
  case (Inr n)
  with cp have "s' = s\<lparr>events := events s @
                 [Waited 5000,
                  Called (PullRequestsCreate ''Automatic cleanup!'' (login (owner (ghRepo e)))
                            (name (ghRepo e)) h b) (Inr n),
                  Called (IssuesEdit n (login (owner (ghRepo e))) (name (ghRepo e)) a
                            [''autogenerated'']) res]\<rparr>"
    by (auto simp: createPullRequest_def do_call_eq await_rateLimit_def Let_def)
  then show ?thesis by blast
qed

text \<open>Three runs of \<^verbatim>\<open>pushChanges\<close> on a dirty element that needs review, with a
  budget of one: the pull request fails, the push fails, everything answers.\<close>

lemma run_pr_fails:
  "pushChanges env_pr_fails \<lparr>max_changes = 1\<rparr> (paper_button\<lparr>dirty := True, needsReview := True\<rparr>)
      branchName ''rictic'' init_state
   = (Inl (Error ''Validation Failed''),
      paper_button\<lparr>dirty := True, needsReview := True, pushFailed := True\<rparr>,
      \<lparr>elementsPushed = 1, pushesDenied = 0,
       events =
         [Called (GetRemote ''repos/paper-button'' ''origin'') (Inr 7),
          Called (RemotePush ''repos/paper-button''
                    [''refs/heads/auto-cleanup:refs/heads/auto-cleanup'']) (Inr 7),
          Waited 5000,
          Called (PullRequestsCreate ''Automatic cleanup!'' ''PolymerElements'' ''paper-button''
                    ''auto-cleanup'' ''master'') (Inl (Error ''Validation Failed''))]\<rparr>)"
  by (simp add: pushChanges_def pushIsAllowed_def pushBranch_def createPullRequest_def
        do_call_def await_rateLimit_def env_pr_fails_def paper_button_def init_state_def
        branchName_def Let_def)

lemma run_push_fails:
  "pushChanges env_push_fails \<lparr>max_changes = 1\<rparr>
      (paper_button\<lparr>dirty := True, needsReview := True\<rparr>) branchName ''rictic'' init_state
   = (Inl (Error ''push rejected''),
      paper_button\<lparr>dirty := True, needsReview := True, pushFailed := True\<rparr>,
      \<lparr>elementsPushed = 1, pushesDenied = 0,
       events =
         [Called (GetRemote ''repos/paper-button'' ''origin'') (Inr 7),
          Called (RemotePush ''repos/paper-button''
                    [''refs/heads/auto-cleanup:refs/heads/auto-cleanup''])
            (Inl (Error ''push rejected''))]\<rparr>)"
  by (simp add: pushChanges_def pushIsAllowed_def pushBranch_def createPullRequest_def
        do_call_def await_rateLimit_def env_push_fails_def paper_button_def init_state_def
        branchName_def Let_def)

lemma run_ok:
  "pushChanges env_ok \<lparr>max_changes = 1\<rparr>
      (paper_button\<lparr>dirty := True, needsReview := True\<rparr>) branchName ''rictic'' init_state
   = (Inr (),
      paper_button\<lparr>dirty := True, needsReview := True, pushSucceeded := True\<rparr>,
      \<lparr>elementsPushed = 1, pushesDenied = 0,
       events =
         [Called (GetRemote ''repos/paper-button'' ''origin'') (Inr 7),
          Called (RemotePush ''repos/paper-button''
                    [''refs/heads/auto-cleanup:refs/heads/auto-cleanup'']) (Inr 7),
          Waited 5000,
          Called (PullRequestsCreate ''Automatic cleanup!'' ''PolymerElements'' ''paper-button''
                    ''auto-cleanup'' ''master'') (Inr 7),
          Called (IssuesEdit 7 ''PolymerElements'' ''paper-button'' ''rictic''
                    [''autogenerated'']) (Inr 7)]\<rparr>)"
  by (simp add: pushChanges_def pushIsAllowed_def pushBranch_def createPullRequest_def
        do_call_def await_rateLimit_def env_ok_def paper_button_def init_state_def
        branchName_def Let_def)

lemma allowed_1: "fst (pushIsAllowed \<lparr>max_changes = 1\<rparr> init_state)"
  by (simp add: pushIsAllowed_def init_state_def)

text \<open>
  C4, as amended. For a dirty element that the budget allows, let \<open>new\<close> be what
  \<^verbatim>\<open>pushChanges\<close> adds to the log. When no step raises and \<^verbatim>\<open>needsReview\<close> is
  true, \<open>new\<close> is: the remote is fetched, the local branch is pushed to the remote
  branch of the same name, and after the 5000 ms wait exactly one pull request from that
  branch into \<^verbatim>\<open>master\<close> is created with the title \<^verbatim>\<open>Automatic cleanup!\<close> and
  then edited to carry the assignee and the single label \<^verbatim>\<open>autogenerated\<close>. When no
  step raises and \<^verbatim>\<open>needsReview\<close> is false, \<open>new\<close> is the fetch of the remote and the
  push of the local branch to \<^verbatim>\<open>master\<close>. Whether or not a step raises: without
  \<^verbatim>\<open>needsReview\<close> no pull request is requested, at most one is requested at all, and
  every push made goes to the branch just described.
\<close>

theorem C4_review_routing:
  assumes d: "dirty element"
    and al: "fst (pushIsAllowed opts s)"
    and pc: "pushChanges env opts element l a s = (r, element', s')"
    and new: "new = drop (length (events s)) (events s')"
  shows "(r = Inr () \<and> needsReview element \<longrightarrow>
            (\<exists>x y n z. new =
               [Called (GetRemote (dir element) ''origin'') (Inr x),
                Called (RemotePush (dir element) [''refs/heads/'' @ l @ '':refs/heads/'' @ l]) (Inr y),
                Waited 5000,
                Called (PullRequestsCreate ''Automatic cleanup!'' (login (owner (ghRepo element)))
                          (name (ghRepo element)) l ''master'') (Inr n),
                Called (IssuesEdit n (login (owner (ghRepo element))) (name (ghRepo element)) a
                          [''autogenerated'']) (Inr z)]))
       \<and> (r = Inr () \<and> \<not> needsReview element \<longrightarrow>
            (\<exists>x y. new =
               [Called (GetRemote (dir element) ''origin'') (Inr x),
                Called (RemotePush (dir element) [''refs/heads/'' @ l @ '':refs/heads/master''])
                  (Inr y)]))
       \<and> (\<not> needsReview element \<longrightarrow> filter is_PullRequestsCreate (calls_of new) = [])
       \<and> length (filter is_PullRequestsCreate (calls_of new)) \<le> 1
       \<and> (\<forall>c\<in>set (calls_of new). is_RemotePush c \<longrightarrow>
            c = RemotePush (dir element)
                  [''refs/heads/'' @ l @ '':refs/heads/''
                     @ (if needsReview element then l else ''master'')])"
proof -
  obtain s1 where al': "pushIsAllowed opts s = (True, s1)"
    using al by (cases "pushIsAllowed opts s") auto
  from pushIsAllowed_True [OF al'] have ev1: "events s1 = events s"
    by simp
  define remote where "remote = (if needsReview element then l else ''master'')"
  obtain pr s2 where pb: "pushBranch env element l remote s1 = (pr, s2)"
    by (cases "pushBranch env element l remote s1")
  note pbe = pushBranch_events [OF pb]
  show ?thesis
  proof (cases pr)
    case (Inl err)
    from pushChanges_push_raised [OF d al' pb [unfolded remote_def Inl]] pc
    have r: "r = Inl err" and s': "s' = s2"
      by simp_all
    from pbe Inl s' ev1 new have
      "new = [Called (GetRemote (dir element) ''origin'') (Inl err)]
       \<or> (\<exists>x. new = [Called (GetRemote (dir element) ''origin'') (Inr x),
                Called (RemotePush (dir element) [''refs/heads/'' @ l @ '':refs/heads/'' @ remote])
                  (Inl err)])"
      by auto
    with r show ?thesis
      by (auto simp: remote_def)
  next
    case (Inr n)
    from pbe Inr obtain x where s2: "s2 = s1\<lparr>events := events s1 @
                 [Called (GetRemote (dir element) ''origin'') (Inr x),
                  Called (RemotePush (dir element) [''refs/heads/'' @ l @ '':refs/heads/'' @ remote])
                    (Inr n)]\<rparr>"
      by auto
    show ?thesis
    proof (cases "needsReview element")
      case False
      then have rem: "remote = ''master''" by (simp add: remote_def)
      from pushChanges_direct [OF d al' False pb [unfolded rem Inr]] pc
      have r: "r = Inr ()" and s': "s' = s2"
        by simp_all
      from s' s2 ev1 new rem have
        "new = [Called (GetRemote (dir element) ''origin'') (Inr x),
                Called (RemotePush (dir element) [''refs/heads/'' @ l @ '':refs/heads/master''])
                  (Inr n)]"
        by simp
      with r False show ?thesis
        by simp
    next
      case True
      then have rem: "remote = l" by (simp add: remote_def)
      obtain cr s3 where cp: "createPullRequest env element l ''master'' a s2 = (cr, s3)"
        by (cases "createPullRequest env element l ''master'' a s2")
      note cpe = createPullRequest_events [OF cp]
      show ?thesis
      proof (cases cr)
        case (Inl err)
        from pushChanges_pr_raised [OF d al' True pb [unfolded rem Inr] cp [unfolded Inl]] pc
        have r: "r = Inl err" and s': "s' = s3"
          by simp_all
        from cpe Inl s' s2 ev1 new rem have
          "new = [Called (GetRemote (dir element) ''origin'') (Inr x),
                  Called (RemotePush (dir element) [''refs/heads/'' @ l @ '':refs/heads/'' @ l])
                    (Inr n),
                  Waited 5000,
                  Called (PullRequestsCreate ''Automatic cleanup!''
                            (login (owner (ghRepo element))) (name (ghRepo element)) l ''master'')
                    (Inl err)]
             \<or> (\<exists>k. new = [Called (GetRemote (dir element) ''origin'') (Inr x),
                  Called (RemotePush (dir element) [''refs/heads/'' @ l @ '':refs/heads/'' @ l])
                    (Inr n),
                  Waited 5000,
                  Called (PullRequestsCreate ''Automatic cleanup!''
                            (login (owner (ghRepo element))) (name (ghRepo element)) l ''master'')
                    (Inr k),
                  Called (IssuesEdit k (login (owner (ghRepo element))) (name (ghRepo element)) a
                            [''autogenerated'']) (Inl err)])"
          by auto
        with r True show ?thesis
          by auto
      next
        case cr: (Inr z)
        from pushChanges_reviewed [OF d al' True pb [unfolded rem Inr] cp [unfolded cr]] pc
        have r: "r = Inr ()" and s': "s' = s3"
          by simp_all
        from cpe cr s' s2 ev1 new rem have
          "\<exists>k. new = [Called (GetRemote (dir element) ''origin'') (Inr x),
                  Called (RemotePush (dir element) [''refs/heads/'' @ l @ '':refs/heads/'' @ l])
                    (Inr n),
                  Waited 5000,
                  Called (PullRequestsCreate ''Automatic cleanup!''
                            (login (owner (ghRepo element))) (name (ghRepo element)) l ''master'')
                    (Inr k),
                  Called (IssuesEdit k (login (owner (ghRepo element))) (name (ghRepo element)) a
                            [''autogenerated'']) (Inr z)]"
          by auto
        with r True show ?thesis
          by auto
      qed
    qed
  qed
qed


theorem C4_review_routing_witness:
  "dirty (paper_button\<lparr>dirty := True, needsReview := True\<rparr>)
   \<and> fst (pushIsAllowed \<lparr>max_changes = 1\<rparr> init_state)
   \<and> fst (pushChanges env_ok \<lparr>max_changes = 1\<rparr>
            (paper_button\<lparr>dirty := True, needsReview := True\<rparr>) branchName ''rictic'' init_state)
       = Inr ()
   \<and> (\<exists>x y n z.
         drop (length (events init_state))
           (events (snd (snd (pushChanges env_ok \<lparr>max_changes = 1\<rparr>
              (paper_button\<lparr>dirty := True, needsReview := True\<rparr>) branchName ''rictic''
              init_state))))
         = [Called (GetRemote ''repos/paper-button'' ''origin'') (Inr x),
            Called (RemotePush ''repos/paper-button''
                      [''refs/heads/auto-cleanup:refs/heads/auto-cleanup'']) (Inr y),
            Waited 5000,
            Called (PullRequestsCreate ''Automatic cleanup!'' ''PolymerElements'' ''paper-button''
                      ''auto-cleanup'' ''master'') (Inr n),
            Called (IssuesEdit n ''PolymerElements'' ''paper-button'' ''rictic''
                      [''autogenerated'']) (Inr z)])"
proof -
  have d: "dirty (paper_button\<lparr>dirty := True, needsReview := True\<rparr>)"
    by simp
  from C4_review_routing [OF d allowed_1 run_ok refl] d allowed_1 run_ok show ?thesis
    by (simp add: paper_button_def branchName_def)
qed

text \<open>
  C4 as stated fails: when the push is rejected, a dirty, allowed element with
  \<^verbatim>\<open>needsReview\<close> gets no pull request at all, not exactly one.
\<close>

theorem C4_push_raises_counterexample:
  "dirty (paper_button\<lparr>dirty := True, needsReview := True\<rparr>)
   \<and> needsReview (paper_button\<lparr>dirty := True, needsReview := True\<rparr>)
   \<and> fst (pushIsAllowed \<lparr>max_changes = 1\<rparr> init_state)
   \<and> filter is_PullRequestsCreate
        (calls_of (events (snd (snd (pushChanges env_push_fails \<lparr>max_changes = 1\<rparr>
           (paper_button\<lparr>dirty := True, needsReview := True\<rparr>) branchName ''rictic''
           init_state))))) = []
   \<and> length (filter is_PullRequestsCreate
        (calls_of (events (snd (snd (pushChanges env_push_fails \<lparr>max_changes = 1\<rparr>
           (paper_button\<lparr>dirty := True, needsReview := True\<rparr>) branchName ''rictic''
           init_state)))))) \<noteq> 1"
  by (simp add: run_push_fails allowed_1)


lemma pushChanges_one_assignment:
  "fst (snd (pushChanges env opts e l a s))
     \<in> {e, e\<lparr>pushDenied := True\<rparr>, e\<lparr>pushSucceeded := True\<rparr>, e\<lparr>pushFailed := True\<rparr>}"
proof -
  obtain r e' s' where pc: "pushChanges env opts e l a s = (r, e', s')"
    by (cases "pushChanges env opts e l a s")
  from pushChanges_effect [OF pc] have
    "e' = e \<or> e' = e\<lparr>pushDenied := True\<rparr> \<or> e' = e\<lparr>pushSucceeded := True\<rparr>
     \<or> e' = e\<lparr>pushFailed := True\<rparr>"
    by blast
  with pc show ?thesis by auto
qed

lemma update_elements_outcomes:
  assumes "\<forall>e\<in>set es. outcomes_set e = 0"
  shows "\<forall>e'\<in>set (fst (snd (update_elements env opts user_login es s))). outcomes_set e' \<le> 1"
proof -
  obtain r es' s' where ue: "update_elements env opts user_login es s = (r, es', s')"
    by (cases "update_elements env opts user_login es s")
  from update_elements_counts [OF assms ue] ue show ?thesis
    by simp
qed

text \<open>
  C5. For a dirty element that the budget allows: if one of the calls made by the push
  or the pull-request step raises, \<^verbatim>\<open>pushChanges\<close> sets \<^verbatim>\<open>pushFailed\<close> and rejects
  with that very error; if none raises it sets \<^verbatim>\<open>pushSucceeded\<close> and resolves. Any
  call of \<^verbatim>\<open>pushChanges\<close> whatsoever makes at most one assignment, to one of the
  three flags; and over the loop of the batch, elements that start without an outcome
  end with at most one.
\<close>

theorem C5_failed_or_succeeded:
  assumes d: "dirty element"
    and al: "fst (pushIsAllowed opts s)"
    and pc: "pushChanges env opts element l a s = (r, element', s')"
  shows "(case first_raised (drop (length (events s)) (events s')) of
            Some err \<Rightarrow> r = Inl err \<and> element' = element\<lparr>pushFailed := True\<rparr>
          | None \<Rightarrow> r = Inr () \<and> element' = element\<lparr>pushSucceeded := True\<rparr>)
       \<and> (\<forall>env0 opts0 e0 l0 a0 s0.
             fst (snd (pushChanges env0 opts0 e0 l0 a0 s0))
               \<in> {e0, e0\<lparr>pushDenied := True\<rparr>, e0\<lparr>pushSucceeded := True\<rparr>,
                   e0\<lparr>pushFailed := True\<rparr>})
       \<and> (\<forall>user_login es s0. (\<forall>e\<in>set es. outcomes_set e = 0) \<longrightarrow>
             (\<forall>e'\<in>set (fst (snd (update_elements env opts user_login es s0))).
                outcomes_set e' \<le> 1))"
proof -
  obtain s1 where al': "pushIsAllowed opts s = (True, s1)"
    using al by (cases "pushIsAllowed opts s") auto
  from pushIsAllowed_True [OF al'] have ev1: "events s1 = events s"
    by simp
  from pushChanges_allowed [OF d al' pc] obtain new where
    s': "s' = s1\<lparr>events := events s1 @ new\<rparr>"
    and out: "case first_raised new of
                Some err \<Rightarrow> r = Inl err \<and> element' = element\<lparr>pushFailed := True\<rparr>
              | None \<Rightarrow> r = Inr () \<and> element' = element\<lparr>pushSucceeded := True\<rparr>"
    by blast
  from s' ev1 have "drop (length (events s)) (events s') = new"
    by simp
  with out have first: "case first_raised (drop (length (events s)) (events s')) of
            Some err \<Rightarrow> r = Inl err \<and> element' = element\<lparr>pushFailed := True\<rparr>
          | None \<Rightarrow> r = Inr () \<and> element' = element\<lparr>pushSucceeded := True\<rparr>"
    by simp
  from first pushChanges_one_assignment update_elements_outcomes show ?thesis
    by blast
qed

theorem C5_failed_or_succeeded_witness:
  "dirty (paper_button\<lparr>dirty := True, needsReview := True\<rparr>)
   \<and> fst (pushIsAllowed \<lparr>max_changes = 1\<rparr> init_state)
   \<and> pushChanges env_pr_fails \<lparr>max_changes = 1\<rparr>
        (paper_button\<lparr>dirty := True, needsReview := True\<rparr>) branchName ''rictic'' init_state
      = (Inl (Error ''Validation Failed''),
         paper_button\<lparr>dirty := True, needsReview := True, pushFailed := True\<rparr>,
         snd (snd (pushChanges env_pr_fails \<lparr>max_changes = 1\<rparr>
           (paper_button\<lparr>dirty := True, needsReview := True\<rparr>) branchName ''rictic''
           init_state)))
   \<and> first_raised (drop (length (events init_state))
        (events (snd (snd (pushChanges env_pr_fails \<lparr>max_changes = 1\<rparr>
           (paper_button\<lparr>dirty := True, needsReview := True\<rparr>) branchName ''rictic''
           init_state)))))
      = Some (Error ''Validation Failed'')"
proof -
  have d: "dirty (paper_button\<lparr>dirty := True, needsReview := True\<rparr>)"
    by simp
  from C5_failed_or_succeeded [OF d allowed_1 run_pr_fails] d allowed_1 run_pr_fails
  show ?thesis
    by (simp add: init_state_def)
qed



section \<open>Properties of the batch\<close>

lemma main_of_update_elements:
  assumes "update_elements env opts user_login es s = (r, es', s')"
  shows "final_elements (main env opts user_login es s) = es'"
    and "final_state (main env opts user_login es s) = s'"
    and "exit_code (main env opts user_login es s) = (case r of Inl err \<Rightarrow> 1 | Inr u \<Rightarrow> 0)"
    and "stderr (main env opts user_login es s)
           = (case r of Inl err \<Rightarrow> [[CHR 0x0A, CHR 0x0A], stack err] | Inr u \<Rightarrow> [])"
    and "stdout (main env opts user_login es s)
           = (case r of Inl err \<Rightarrow> reportOnChangesMade es'
                      | Inr u \<Rightarrow> reportOnChangesMade es' @ [summary opts s'])"
  using assms by (simp_all add: main_def u_main_def split: sum.splits)


lemmas run_defs =
  main_def u_main_def update_element_def checkoutNewBranch_def pushChanges_def
  pushIsAllowed_def pushBranch_def createPullRequest_def do_call_def await_rateLimit_def
  error_updating_def excludes_def branchName_def init_state_def Let_def


text \<open>
  C6, as amended. \<^verbatim>\<open>elementsPushed\<close> counts the publishes that the budget allowed,
  whether they then succeeded or not. For a run over elements that start without an
  outcome: when the loop has ended, normally or by an error, \<^verbatim>\<open>elementsPushed\<close> is
  the number of elements that succeeded plus the number that failed, and
  \<^verbatim>\<open>pushesDenied\<close> is the number denied; at most one element has failed; and on a
  run that exits with code 0 \<^verbatim>\<open>elementsPushed\<close> is the number of elements that
  succeeded.
\<close>

theorem C6_budget_counts_attempts:
  assumes fresh: "\<forall>e\<in>set elements. outcomes_set e = 0"
    and run: "run = main env opts user_login elements init_state"
  shows "elementsPushed (final_state run)
           = int (length (filter pushSucceeded (final_elements run)))
             + int (length (filter pushFailed (final_elements run)))
       \<and> pushesDenied (final_state run) = int (length (filter pushDenied (final_elements run)))
       \<and> length (filter pushFailed (final_elements run)) \<le> 1
       \<and> (exit_code run = 0 \<longrightarrow>
            elementsPushed (final_state run)
              = int (length (filter pushSucceeded (final_elements run))))"
proof -
  obtain r es' s' where ue: "update_elements env opts user_login elements init_state = (r, es', s')"
    by (cases "update_elements env opts user_login elements init_state")
  note m = main_of_update_elements [OF ue]
  from update_elements_counts [OF fresh ue] have
    c1: "elementsPushed s' = int (length (filter pushSucceeded es')) + int (length (filter pushFailed es'))"
    and c2: "pushesDenied s' = int (length (filter pushDenied es'))"
    and c3: "length (filter pushFailed es') \<le> 1"
    and c4: "r = Inr () \<longrightarrow> filter pushFailed es' = []"
    by (simp_all add: init_state_def)
  have "exit_code run = 0 \<longrightarrow> r = Inr ()"
    using m(3) run by (cases r) simp_all
  with c1 c2 c3 c4 m(1,2) run show ?thesis
    by auto
qed

theorem C6_budget_counts_attempts_witness:
  "outcomes_set paper_button = 0 \<and> outcomes_set iron_icon = 0
   \<and> exit_code (main env_ok \<lparr>max_changes = 1\<rparr> ''rictic'' [iron_icon, paper_button] init_state) = 0
   \<and> elementsPushed (final_state
        (main env_ok \<lparr>max_changes = 1\<rparr> ''rictic'' [iron_icon, paper_button] init_state))
      = int (length (filter pushSucceeded (final_elements
        (main env_ok \<lparr>max_changes = 1\<rparr> ''rictic'' [iron_icon, paper_button] init_state))))
   \<and> pushesDenied (final_state
        (main env_ok \<lparr>max_changes = 1\<rparr> ''rictic'' [iron_icon, paper_button] init_state))
      = int (length (filter pushDenied (final_elements
        (main env_ok \<lparr>max_changes = 1\<rparr> ''rictic'' [iron_icon, paper_button] init_state))))"
proof -
  have f: "outcomes_set paper_button = 0" "outcomes_set iron_icon = 0"
    by (simp_all add: outcomes_set_def paper_button_def iron_icon_def)
  then have fresh: "\<forall>e\<in>set [iron_icon, paper_button]. outcomes_set e = 0"
    by simp
  have ex: "exit_code (main env_ok \<lparr>max_changes = 1\<rparr> ''rictic'' [iron_icon, paper_button]
              init_state) = 0"
    by (simp add: run_defs env_ok_def paper_button_def iron_icon_def)
  from C6_budget_counts_attempts [OF fresh refl, of env_ok "\<lparr>max_changes = 1\<rparr>" "''rictic''"] f ex
  show ?thesis
    by blast
qed


text \<open>
  C6 as stated fails: with a budget of one and a push that is rejected, the run ends with
  \<^verbatim>\<open>elementsPushed\<close> at 1 and no element succeeded.
\<close>

theorem C6_push_fails_counterexample:
  "outcomes_set paper_button = 0
   \<and> elementsPushed (final_state
        (main env_push_fails \<lparr>max_changes = 1\<rparr> ''rictic'' [paper_button] init_state)) = 1
   \<and> length (filter pushSucceeded (final_elements
        (main env_push_fails \<lparr>max_changes = 1\<rparr> ''rictic'' [paper_button] init_state))) = 0
   \<and> elementsPushed (final_state
        (main env_push_fails \<lparr>max_changes = 1\<rparr> ''rictic'' [paper_button] init_state))
      \<noteq> int (length (filter pushSucceeded (final_elements
        (main env_push_fails \<lparr>max_changes = 1\<rparr> ''rictic'' [paper_button] init_state))))"
  by (simp add: run_defs env_push_fails_def paper_button_def outcomes_set_def)






section \<open>Properties of discovery\<close>

lemma dedupe_acc: "dedupe repos ids acc = acc @ dedupe repos ids []"
proof (induction repos arbitrary: ids acc)
  case Nil
  then show ?case by simp
next
  case (Cons r rs)
  show ?case
  proof (cases "name r \<in> ids")
    case True
    with Cons.IH [of ids acc] show ?thesis by simp
  next
    case False
    with Cons.IH [of "insert (name r) ids" "acc @ [r]"] Cons.IH [of "insert (name r) ids" "[r]"]
    show ?thesis by simp
  qed
qed

lemma dedupe_Cons:
  "dedupe (r # rs) ids [] =
     (if name r \<in> ids then dedupe rs ids [] else r # dedupe rs (insert (name r) ids) [])"
  using dedupe_acc [of rs "insert (name r) ids" "[r]"] by simp

lemma dedupe_names: "set (map name (dedupe repos ids [])) = set (map name repos) - ids"
proof (induction repos arbitrary: ids)
  case Nil
  then show ?case by simp
next
  case (Cons r rs)
  show ?case
    unfolding dedupe_Cons using Cons.IH [of ids] Cons.IH [of "insert (name r) ids"]
    by auto
qed

lemma dedupe_distinct: "distinct (map name (dedupe repos ids []))"
proof (induction repos arbitrary: ids)
  case Nil
  then show ?case by simp
next
  case (Cons r rs)
  have "name r \<notin> set (map name (dedupe rs (insert (name r) ids) []))"
    unfolding dedupe_names by simp
  with Cons.IH [of ids] Cons.IH [of "insert (name r) ids"] show ?case
    unfolding dedupe_Cons by simp
qed

lemma dedupe_subseq: "subseq (dedupe repos ids []) repos"
proof (induction repos arbitrary: ids)
  case Nil
  then show ?case by simp
next
  case (Cons r rs)
  from Cons.IH [of ids] Cons.IH [of "insert (name r) ids"] show ?case
    unfolding dedupe_Cons by auto
qed

lemma dedupe_first:
  "d \<in> set (dedupe repos ids []) \<Longrightarrow> find (\<lambda>r. name r = name d) repos = Some d"
proof (induction repos arbitrary: ids)
  case Nil
  then show ?case by simp
next
  case (Cons r rs)
  show ?case
  proof (cases "name r \<in> ids")
    case True
    with Cons.prems [unfolded dedupe_Cons] have d: "d \<in> set (dedupe rs ids [])"
      by simp
    then have "name d \<in> set (map name (dedupe rs ids []))"
      by simp
    then have "name d \<notin> ids"
      unfolding dedupe_names by simp
    with True have "name r \<noteq> name d" by auto
    with Cons.IH [OF d] show ?thesis by simp
  next
    case False
    with Cons.prems [unfolded dedupe_Cons]
    have "d = r \<or> d \<in> set (dedupe rs (insert (name r) ids) [])"
      by simp
    then show ?thesis
    proof
      assume "d = r"
      then show ?thesis by simp
    next
      assume d: "d \<in> set (dedupe rs (insert (name r) ids) [])"
      then have "name d \<in> set (map name (dedupe rs (insert (name r) ids) []))"
        by simp
      then have "name r \<noteq> name d"
        unfolding dedupe_names by auto
      with Cons.IH [OF d] show ?thesis by simp
    qed
  qed
qed

lemma fetch_pages_prefix_aux:
  assumes "fetch_pages from_org acc page = Some y"
  shows "case y of Inl err \<Rightarrow> True | Inr repos \<Rightarrow> prefix acc repos"
proof (rule fetch_pages.raw_induct
    [where P = "\<lambda>f a p y. case y of Inl err \<Rightarrow> True | Inr repos \<Rightarrow> prefix a repos",
     OF _ assms])
  fix fetch :: "(nat \<Rightarrow> error + Repo list) \<Rightarrow> Repo list \<Rightarrow> nat \<Rightarrow> (error + Repo list) option"
  fix f a p y
  assume IH: "\<And>f a p y. fetch f a p = Some y \<Longrightarrow>
                (case y of Inl err \<Rightarrow> True | Inr repos \<Rightarrow> prefix a repos)"
    and body: "(case f p of
                  Inl err \<Rightarrow> Some (Inl err)
                | Inr resultsPage \<Rightarrow>
                    if length resultsPage < per_page then Some (Inr (a @ resultsPage))
                    else fetch f (a @ resultsPage) (p + 1)) = Some y"
  show "case y of Inl err \<Rightarrow> True | Inr repos \<Rightarrow> prefix a repos"
  proof (cases "f p")
    case (Inl err)
    with body show ?thesis by auto
  next
    case (Inr resultsPage)
    show ?thesis
    proof (cases "length resultsPage < per_page")
      case True
      with Inr body show ?thesis by auto
    next
      case False
      with Inr body have "fetch f (a @ resultsPage) (p + 1) = Some y"
        by simp
      from IH [OF this] show ?thesis
        by (auto split: sum.splits dest: append_prefixD)
    qed
  qed
qed

lemma fetch_pages_prefix:
  "fetch_pages from_org acc page = Some (Inr repos) \<Longrightarrow> prefix acc repos"
  using fetch_pages_prefix_aux [of from_org acc page "Inr repos"] by simp

text \<open>
  C7. Whenever \<^verbatim>\<open>getRepos\<close> has fetched the root repository and paging has ended
  with the accumulated list \<open>repos\<close> (the root first, then the pages in order), it
  returns the deduplicated \<open>repos\<close>, in which: no name occurs twice; every name of
  \<open>repos\<close> occurs; each descriptor kept is the first one in \<open>repos\<close> with its name;
  and the descriptors kept are in the order they have in \<open>repos\<close>.
\<close>

theorem C7_getRepos_dedupes:
  assumes root: "repos_get gh = Inr root"
    and pages: "fetch_pages (getFromOrg gh) [root] 0 = Some (Inr repos)"
  shows "getRepos gh = Some (Inr (dedupe repos {} []))
       \<and> prefix [root] repos
       \<and> distinct (map name (dedupe repos {} []))
       \<and> set (map name (dedupe repos {} [])) = set (map name repos)
       \<and> (\<forall>d\<in>set (dedupe repos {} []). find (\<lambda>r. name r = name d) repos = Some d)
       \<and> subseq (dedupe repos {} []) repos"
proof -
  from root pages have "getRepos gh = Some (Inr (dedupe repos {} []))"
    by (simp add: getRepos_def)
  moreover note fetch_pages_prefix [OF pages]
  moreover note dedupe_distinct [of repos "{}"]
  moreover have "set (map name (dedupe repos {} [])) = set (map name repos)"
    using dedupe_names [of repos "{}"] by simp
  moreover have "\<forall>d\<in>set (dedupe repos {} []). find (\<lambda>r. name r = name d) repos = Some d"
    using dedupe_first by blast
  moreover note dedupe_subseq [of repos "{}"]
  ultimately show ?thesis by blast
qed

theorem C7_getRepos_dedupes_witness:
  "repos_get repeating_listing = Inr polymer
   \<and> fetch_pages (getFromOrg repeating_listing) [polymer] 0
       = Some (Inr [polymer, ghRepo paper_button, ghRepo iron_icon,
                    (ghRepo paper_button)\<lparr>clone_url :=
                       ''git://github.com/PolymerElements/paper-button.git''\<rparr>])
   \<and> getRepos repeating_listing = Some (Inr [polymer, ghRepo paper_button, ghRepo iron_icon])
   \<and> distinct (map name [polymer, ghRepo paper_button, ghRepo iron_icon])"
proof -
  have root: "repos_get repeating_listing = Inr polymer"
    by (simp add: repeating_listing_def)
  have pages: "fetch_pages (getFromOrg repeating_listing) [polymer] 0
       = Some (Inr [polymer, ghRepo paper_button, ghRepo iron_icon,
                    (ghRepo paper_button)\<lparr>clone_url :=
                       ''git://github.com/PolymerElements/paper-button.git''\<rparr>])"
    by (subst fetch_pages.simps) (simp add: repeating_listing_def per_page_def)
  have dd: "dedupe [polymer, ghRepo paper_button, ghRepo iron_icon,
                    (ghRepo paper_button)\<lparr>clone_url :=
                       ''git://github.com/PolymerElements/paper-button.git''\<rparr>] {} []
            = [polymer, ghRepo paper_button, ghRepo iron_icon]"
    by (simp add: polymer_def paper_button_def iron_icon_def)
  from C7_getRepos_dedupes [OF root pages] root pages dd show ?thesis
    by simp
qed


section \<open>Properties of the rate limiter\<close>

lemma rateLimit_calls_Cons:
  "rateLimit_calls (c # cs) p
     = (max p (at c) + delay c + late c) # rateLimit_calls cs (max p (at c) + delay c + late c)"
  by (simp add: rateLimit_def reaction_runs_def setTimeout_fires_def Let_def)

lemma length_rateLimit_calls: "length (rateLimit_calls cs p) = length cs"
  by (induction cs arbitrary: p) (simp_all add: rateLimit_calls_Cons del: rateLimit_calls.simps(2))

lemma rateLimit_calls_nth:
  "i < length cs \<Longrightarrow>
   rateLimit_calls cs p ! i = delay_starts cs p i + delay (cs ! i) + late (cs ! i)"
proof (induction cs arbitrary: p i)
  case Nil
  then show ?case by simp
next
  case (Cons c cs)
  define p' where "p' = max p (at c) + delay c + late c"
  have unfold: "rateLimit_calls (c # cs) p = p' # rateLimit_calls cs p'"
    by (simp add: rateLimit_calls_Cons p'_def del: rateLimit_calls.simps(2))
  show ?case
  proof (cases i)
    case 0
    then show ?thesis
      by (simp add: unfold delay_starts_def reaction_runs_def p'_def del: rateLimit_calls.simps(2))
  next
    case (Suc j)
    with Cons.prems have j: "j < length cs" by simp
    have prev: "(p' # rateLimit_calls cs p') ! j
                  = (if j = 0 then p' else rateLimit_calls cs p' ! (j - 1))"
      by (cases j) simp_all
    from Cons.IH [OF j, of p'] Suc prev show ?thesis
      by (simp add: unfold delay_starts_def del: rateLimit_calls.simps(2))
  qed
qed

lemma rateLimit_calls_step:
  assumes "Suc i < length cs"
  shows "rateLimit_calls cs p ! i \<le> delay_starts cs p (Suc i)"
    and "rateLimit_calls cs p ! i + delay (cs ! Suc i) \<le> rateLimit_calls cs p ! Suc i"
proof -
  show "rateLimit_calls cs p ! i \<le> delay_starts cs p (Suc i)"
    by (simp add: delay_starts_def reaction_runs_def)
  with rateLimit_calls_nth [OF assms, of p]
  show "rateLimit_calls cs p ! i + delay (cs ! Suc i) \<le> rateLimit_calls cs p ! Suc i"
    by simp
qed

lemma sorted_rateLimit_calls: "sorted (rateLimit_calls cs p)"
proof -
  have "rateLimit_calls cs p ! i \<le> rateLimit_calls cs p ! Suc i" if "Suc i < length cs" for i
    using rateLimit_calls_step(2) [OF that, of p] by simp
  then show ?thesis
    by (simp add: sorted_iff_nth_Suc length_rateLimit_calls)
qed

lemma rateLimit_calls_equal_delay:
  assumes "\<forall>c\<in>set cs. delay c = d" and "i < length cs"
  shows "delay_starts cs p 0 + (i + 1) * d \<le> rateLimit_calls cs p ! i"
  using assms(2)
proof (induction i)
  case 0
  with assms(1) have "delay (cs ! 0) = d" by simp
  with rateLimit_calls_nth [OF 0, of p] show ?case by simp
next
  case (Suc i)
  then have i: "i < length cs" by simp
  from assms(1) Suc.prems have "delay (cs ! Suc i) = d" by simp
  with rateLimit_calls_step(2) [OF Suc.prems, of p] Suc.IH [OF i] show ?case
    by simp
qed

text \<open>
  C9. For every sequence of calls of \<^verbatim>\<open>rateLimit\<close>, whenever each is made and
  whatever \<^verbatim>\<open>previousPromise\<close> is at the start: there is one returned promise per
  call and they resolve in call order; each resolves when its own delay, counted from
  the start of that delay, has passed (or later by the timer's lateness); the delay of a
  call starts no sooner than the promise of the call before it has resolved; and when all
  calls ask for the same delay \<open>d\<close>, the \<open>i\<close>-th promise (counting from 1) resolves no
  sooner than \<open>i * d\<close> after the first call's delay started.
\<close>

theorem C9_rateLimit_serial:
  "length (rateLimit_calls cs p) = length cs
   \<and> sorted (rateLimit_calls cs p)
   \<and> (\<forall>i<length cs.
         rateLimit_calls cs p ! i = delay_starts cs p i + delay (cs ! i) + late (cs ! i))
   \<and> (\<forall>i. Suc i < length cs \<longrightarrow> rateLimit_calls cs p ! i \<le> delay_starts cs p (Suc i))
   \<and> ((\<forall>c\<in>set cs. delay c = d) \<longrightarrow>
        (\<forall>i<length cs. delay_starts cs p 0 + (i + 1) * d \<le> rateLimit_calls cs p ! i))"
  using length_rateLimit_calls sorted_rateLimit_calls rateLimit_calls_nth
    rateLimit_calls_step(1) rateLimit_calls_equal_delay
  by blast

theorem C9_rateLimit_serial_witness:
  "rateLimit_calls
     [\<lparr>at = 0, delay = 100, late = 0\<rparr>, \<lparr>at = 0, delay = 100, late = 0\<rparr>,
      \<lparr>at = 0, delay = 100, late = 0\<rparr>] 0 = [100, 200, 300]
   \<and> delay_starts
     [\<lparr>at = 0, delay = 100, late = 0\<rparr>, \<lparr>at = 0, delay = 100, late = 0\<rparr>,
      \<lparr>at = 0, delay = 100, late = 0\<rparr>] 0 0 + (2 + 1) * 100
     \<le> rateLimit_calls
     [\<lparr>at = 0, delay = 100, late = 0\<rparr>, \<lparr>at = 0, delay = 100, late = 0\<rparr>,
      \<lparr>at = 0, delay = 100, late = 0\<rparr>] 0 ! 2"
proof -
  have run: "rateLimit_calls
     [\<lparr>at = 0, delay = 100, late = 0\<rparr>, \<lparr>at = 0, delay = 100, late = 0\<rparr>,
      \<lparr>at = 0, delay = 100, late = 0\<rparr>] 0 = [100, 200, 300]"
    by (simp add: rateLimit_def reaction_runs_def setTimeout_fires_def Let_def)
  have eq: "\<forall>c\<in>set [\<lparr>at = 0, delay = 100, late = 0\<rparr>, \<lparr>at = 0, delay = 100, late = 0\<rparr>,
      \<lparr>at = 0, delay = 100, late = 0\<rparr>]. delay c = 100"
    by simp
  have i: "2 < length [\<lparr>at = 0, delay = 100, late = 0\<rparr>, \<lparr>at = 0, delay = 100, late = 0\<rparr>,
      \<lparr>at = 0, delay = 100, late = 0\<rparr>]"
    by simp
  from C9_rateLimit_serial
    [of "[\<lparr>at = 0, delay = 100, late = 0\<rparr>, \<lparr>at = 0, delay = 100, late = 0\<rparr>,
      \<lparr>at = 0, delay = 100, late = 0\<rparr>]" 0 100] eq i run
  show ?thesis
    by blast
qed


end
